theory Spec2Isabelle
  imports Complex_Main "HOL-Library.Word"
begin

unbundle bit_operations_syntax

section \<open>Bloom filter of package bloom (ds/bloomfilter/bloom.go)\<close>

text \<open>
  The filter keeps two unsigned 64-bit fields and a bit array. Go's \<open>uint64\<close> is
  \<open>64 word\<close>, a \<open>[]byte\<close> is a list of \<open>8 word\<close>, a Go \<open>string\<close> is a list of
  8-bit characters. A run-time panic of the Go program is a value of type \<open>panic\<close>,
  and a function that can panic returns \<open>panic + 'a\<close>.

  The \<open>locker\<close> field and the option callbacks only choose between a no-op lock and a
  read/write mutex around each method; they do not change what a method computes and are
  left out of this sequential model.
\<close>

type_synonym byte = "8 word"
type_synonym uint64 = "64 word"

datatype panic =
    DivideByZero          \<comment> \<open>integer divide by zero, from \<open>%\<close>\<close>
  | IndexOutOfRange       \<comment> \<open>index out of range, from \<open>hashs[i]\<close>\<close>
  | SliceBoundsOutOfRange \<comment> \<open>slice bounds out of range, from \<open>data[8+8:]\<close>\<close>
  | BitIndexOutOfRange    \<comment> \<open>bounds error of the bit array\<close>

subsection \<open>The packed bit array (package ds/bitmap)\<close>

text \<open>
  Package \<open>ds/bitmap\<close> (type \<open>Bitmap\<close> with \<open>New\<close>, \<open>NewFromData\<close>, \<open>Set\<close>,
  \<open>IsSet\<close> and \<open>Data\<close>) is imported by bloom.go and its source is missing. The
  definitions of this subsection follow the contract of the spec's section 4.1. The
  storage word is taken to be the byte, the unit in which bloom.go passes the storage to
  and from the bit array, so the word width is 8.
\<close>

text \<open>
  Modelled from the spec: the type \<open>Bitmap\<close> of the missing package. Its attributes
  are the total bit capacity, fixed at construction, and the underlying storage as a
  sequence of fixed-width words.
\<close>

record Bitmap =
  capacity :: nat
  storage :: "byte list"

text \<open>
  Modelled from the spec: \<open>bitmap.New\<close> of the missing package. It allocates storage
  for \<open>capacity\<close> bits, \<open>ceil(capacity / word_width)\<close> words, all zero.
\<close>

definition bitmap_New :: "uint64 \<Rightarrow> Bitmap" where
  "bitmap_New c = \<lparr>capacity = unat c, storage = replicate ((unat c + 7) div 8) 0\<rparr>"

text \<open>
  Modelled from the spec: \<open>bitmap.NewFromData\<close> of the missing package. It rebuilds
  the storage from a byte sequence; bloom.go passes the bytes only, so the capacity is
  the implicit one, \<open>len(bytes) * 8\<close>.
\<close>

definition bitmap_NewFromData :: "byte list \<Rightarrow> Bitmap" where
  "bitmap_NewFromData bs = \<lparr>capacity = 8 * length bs, storage = bs\<rparr>"

text \<open>
  Modelled from the spec: \<open>Set\<close> of the missing package. It sets bit \<open>index\<close> to 1,
  at word index \<open>i / word_width\<close> and bit offset \<open>i % word_width\<close>. An index is valid
  iff \<open>0 \<le> i < capacity\<close>; for an index out of range the spec leaves the choice
  between a fatal bounds error and a modulo wrap, and the fatal bounds error of its
  section 7 is taken. An index beyond the storage is the same error.
\<close>

definition bitmap_Set :: "Bitmap \<Rightarrow> uint64 \<Rightarrow> panic + Bitmap" where
  "bitmap_Set bm position =
     (let i = unat position in
      if capacity bm \<le> i \<or> length (storage bm) \<le> i div 8 then Inl BitIndexOutOfRange
      else Inr (bm\<lparr>storage :=
                  (storage bm)[i div 8 := (storage bm ! (i div 8)) OR push_bit (i mod 8) 1]\<rparr>))"

text \<open>
  Modelled from the spec: \<open>IsSet\<close> of the missing package. It returns whether bit
  \<open>index\<close> is 1, with the bounds contract of \<open>Set\<close>.
\<close>

definition bitmap_IsSet :: "Bitmap \<Rightarrow> uint64 \<Rightarrow> panic + bool" where
  "bitmap_IsSet bm position =
     (let i = unat position in
      if capacity bm \<le> i \<or> length (storage bm) \<le> i div 8 then Inl BitIndexOutOfRange
      else Inr (bit (storage bm ! (i div 8)) (i mod 8)))"

text \<open>
  Modelled from the spec: \<open>Data\<close> of the missing package. It exports the storage
  words in order, so that an import reproduces the same bits.
\<close>

definition bitmap_Data :: "Bitmap \<Rightarrow> byte list" where
  "bitmap_Data bm = storage bm"

subsection \<open>Little-endian encoding (encoding/binary, bytes)\<close>

text \<open>
  \<open>binary.LittleEndian.PutUint64\<close> and \<open>Uint64\<close> of the Go standard library, as
  \<open>binary.Write\<close> and \<open>binary.Read\<close> use them for a \<open>uint64\<close>.
\<close>

definition PutUint64 :: "uint64 \<Rightarrow> byte list" where
  "PutUint64 v =
     [ucast v, ucast (drop_bit 8 v), ucast (drop_bit 16 v), ucast (drop_bit 24 v),
      ucast (drop_bit 32 v), ucast (drop_bit 40 v), ucast (drop_bit 48 v),
      ucast (drop_bit 56 v)]"

definition Uint64 :: "byte list \<Rightarrow> uint64" where
  "Uint64 bs =
     ucast (bs ! 0) OR push_bit 8 (ucast (bs ! 1)) OR push_bit 16 (ucast (bs ! 2))
       OR push_bit 24 (ucast (bs ! 3)) OR push_bit 32 (ucast (bs ! 4))
       OR push_bit 40 (ucast (bs ! 5)) OR push_bit 48 (ucast (bs ! 6))
       OR push_bit 56 (ucast (bs ! 7))"

text \<open>
  \<open>binary.Write(buf, binary.LittleEndian, v)\<close> for \<open>v\<close> of type \<open>uint64\<close> appends
  the eight bytes to the buffer; a write to a \<open>bytes.Buffer\<close> does not fail.
\<close>

definition binary_Write :: "byte list \<Rightarrow> uint64 \<Rightarrow> byte list" where
  "binary_Write buf v = buf @ PutUint64 v"

text \<open>
  \<open>binary.Read(reader, binary.LittleEndian, &x)\<close> for \<open>x\<close> of type \<open>uint64\<close>: the
  reader is the list of bytes not yet read. With eight bytes left it stores their value
  in \<open>x\<close>; with fewer it consumes what is left, returns an error (which bloom.go drops)
  and leaves \<open>x\<close> as it was. The result is the new \<open>x\<close> and the new reader.
\<close>

definition binary_Read :: "byte list \<Rightarrow> uint64 \<Rightarrow> uint64 \<times> byte list" where
  "binary_Read reader x =
     (if 8 \<le> length reader then (Uint64 (take 8 reader), drop 8 reader) else (x, []))"

subsection \<open>The filter\<close>

definition Salt :: string where
  "Salt = ''g9hmj2fhgr''"

text \<open>\<open>[]byte(s)\<close> of a Go string: its bytes.\<close>

definition bytes_of :: "string \<Rightarrow> byte list" where
  "bytes_of s = map (\<lambda>c. of_nat (of_char c)) s"

record BloomFilter =
  bf_m :: uint64
  bf_k :: uint64
  bf_b :: Bitmap

definition New :: "uint64 \<Rightarrow> uint64 \<Rightarrow> BloomFilter" where
  "New m k = \<lparr>bf_m = m, bf_k = k, bf_b = bitmap_New m\<rparr>"

text \<open>
  \<open>EstimateParameters\<close> computes in \<open>float64\<close> (\<open>math.Log\<close>, \<open>math.Ceil\<close>, the
  conversions between \<open>uint64\<close> and \<open>float64\<close>). Its arithmetic is not modelled:
  where \<open>NewWithEstimates\<close> calls it, it is the parameter \<open>EstimateParameters\<close>, any
  function of the Go type \<open>func(uint64, float64) (uint64, uint64)\<close>, and \<open>'f\<close> stands
  for \<open>float64\<close>.
\<close>

definition NewWithEstimates ::
  "(uint64 \<Rightarrow> 'f \<Rightarrow> uint64 \<times> uint64) \<Rightarrow> uint64 \<Rightarrow> 'f \<Rightarrow> BloomFilter" where
  "NewWithEstimates EstimateParameters n fp =
     (case EstimateParameters n fp of (m, k) \<Rightarrow> New m k)"



definition NewFromData :: "byte list \<Rightarrow> panic + BloomFilter" where
  "NewFromData data =
     (case binary_Read data 0 of (m, reader) \<Rightarrow>
      case binary_Read reader 0 of (k, reader') \<Rightarrow>
        if length data < 8 + 8 then Inl SliceBoundsOutOfRange
        else Inr \<lparr>bf_m = m, bf_k = k, bf_b = bitmap_NewFromData (drop (8 + 8) data)\<rparr>)"

text \<open>
  \<open>hash.GenHashInts\<close> (package algorithm/hash) is outside the source at hand. It is a
  parameter of \<open>Add\<close> and \<open>Contains\<close>: any function from the bytes and the count to a
  slice of \<open>uint64\<close>. The count is \<open>int(bf.k)\<close>, the signed reading of the 64 bits
  (Go's \<open>int\<close> on a 64-bit platform).

  The loop \<open>for i := uint64(0); i < bf.k; i++\<close> of \<open>Add\<close>: \<open>hashs[i]\<close> panics when
  the slice is too short, \<open>% bf.m\<close> panics when \<open>bf.m\<close> is zero, and the result of
  \<open>Set\<close> is the new bit array.
\<close>

function Add_loop :: "uint64 list \<Rightarrow> BloomFilter \<Rightarrow> uint64 \<Rightarrow> panic + BloomFilter" where
  "Add_loop hashs bf i =
     (if i < bf_k bf then
        if length hashs \<le> unat i then Inl IndexOutOfRange
        else if bf_m bf = 0 then Inl DivideByZero
        else case bitmap_Set (bf_b bf) (hashs ! unat i mod bf_m bf) of
               Inl e \<Rightarrow> Inl e
             | Inr bm \<Rightarrow> Add_loop hashs (bf\<lparr>bf_b := bm\<rparr>) (i + 1)
      else Inr bf)"
  by pat_completeness auto
termination
proof (relation "measure (\<lambda>(hashs, bf, i). unat (bf_k bf) - unat i)")
  show "wf (measure (\<lambda>(hashs, bf, i). unat (bf_k bf) - unat i))"
    by simp
next
  fix hashs :: "uint64 list" and bf :: BloomFilter and i :: uint64 and bm :: Bitmap
  assume lt: "i < bf_k bf"
  then have "unat (i + 1) = Suc (unat i)"
    using unsigned_less [of "bf_k bf", where ?'a = nat]
    by (simp add: word_less_nat_alt unat_word_ariths)
  moreover from lt have "unat i < unat (bf_k bf)"
    by (simp add: word_less_nat_alt)
  ultimately show "((hashs, bf\<lparr>bf_b := bm\<rparr>, i + 1), (hashs, bf, i))
      \<in> measure (\<lambda>(hashs, bf, i). unat (bf_k bf) - unat i)"
    by simp
qed

definition Add :: "(byte list \<Rightarrow> int \<Rightarrow> uint64 list) \<Rightarrow> BloomFilter \<Rightarrow> string
    \<Rightarrow> panic + BloomFilter" where
  "Add GenHashInts bf val =
     (let hashs = GenHashInts (bytes_of (Salt @ val)) (sint (bf_k bf))
      in Add_loop hashs bf 0)"

text \<open>The loop of \<open>Contains\<close>, which returns false at the first bit that is not set.\<close>

function Contains_loop :: "uint64 list \<Rightarrow> BloomFilter \<Rightarrow> uint64 \<Rightarrow> panic + bool" where
  "Contains_loop hashs bf i =
     (if i < bf_k bf then
        if length hashs \<le> unat i then Inl IndexOutOfRange
        else if bf_m bf = 0 then Inl DivideByZero
        else case bitmap_IsSet (bf_b bf) (hashs ! unat i mod bf_m bf) of
               Inl e \<Rightarrow> Inl e
             | Inr isset \<Rightarrow> if \<not> isset then Inr False else Contains_loop hashs bf (i + 1)
      else Inr True)"
  by pat_completeness auto
termination
proof (relation "measure (\<lambda>(hashs, bf, i). unat (bf_k bf) - unat i)")
  show "wf (measure (\<lambda>(hashs, bf, i). unat (bf_k bf) - unat i))"
    by simp
next
  fix hashs :: "uint64 list" and bf :: BloomFilter and i :: uint64
  assume lt: "i < bf_k bf"
  then have "unat (i + 1) = Suc (unat i)"
    using unsigned_less [of "bf_k bf", where ?'a = nat]
    by (simp add: word_less_nat_alt unat_word_ariths)
  moreover from lt have "unat i < unat (bf_k bf)"
    by (simp add: word_less_nat_alt)
  ultimately show "((hashs, bf, i + 1), (hashs, bf, i))
      \<in> measure (\<lambda>(hashs, bf, i). unat (bf_k bf) - unat i)"
    by simp
qed

definition Contains :: "(byte list \<Rightarrow> int \<Rightarrow> uint64 list) \<Rightarrow> BloomFilter \<Rightarrow> string
    \<Rightarrow> panic + bool" where
  "Contains GenHashInts bf val =
     (let hashs = GenHashInts (bytes_of (Salt @ val)) (sint (bf_k bf))
      in Contains_loop hashs bf 0)"

definition Data :: "BloomFilter \<Rightarrow> byte list" where
  "Data bf =
     (let buf = [];
          buf = binary_Write buf (bf_m bf);
          buf = binary_Write buf (bf_k bf);
          buf = buf @ bitmap_Data (bf_b bf)
      in buf)"


subsection \<open>Sequences of calls, and the filters a program can hold\<close>

text \<open>
  A client calls \<open>Add\<close>, \<open>Contains\<close> and \<open>Data\<close> on one filter, in any order.
  \<open>run\<close> makes the calls of a list in turn and returns the filter they leave; a panic
  of one call ends the run. \<open>Contains\<close> and \<open>Data\<close> only read the filter.
\<close>

datatype operation = OpAdd string | OpContains string | OpData

fun run :: "(byte list \<Rightarrow> int \<Rightarrow> uint64 list) \<Rightarrow> BloomFilter \<Rightarrow> operation list
    \<Rightarrow> panic + BloomFilter" where
  "run GenHashInts bf [] = Inr bf"
| "run GenHashInts bf (OpAdd v # ops) =
     (case Add GenHashInts bf v of Inl e \<Rightarrow> Inl e | Inr bf' \<Rightarrow> run GenHashInts bf' ops)"
| "run GenHashInts bf (OpContains v # ops) =
     (case Contains GenHashInts bf v of Inl e \<Rightarrow> Inl e | Inr r \<Rightarrow> run GenHashInts bf ops)"
| "run GenHashInts bf (OpData # ops) =
     (case Data bf of bytes \<Rightarrow> run GenHashInts bf ops)"

text \<open>
  The fields of a \<open>BloomFilter\<close> are unexported, so a filter of a client is one that
  \<open>New\<close> (also through \<open>NewWithEstimates\<close>) or \<open>NewFromData\<close> returned, after any
  number of \<open>Add\<close> calls.
\<close>

inductive reachable :: "(byte list \<Rightarrow> int \<Rightarrow> uint64 list) \<Rightarrow> BloomFilter \<Rightarrow> bool"
  for GenHashInts where
  by_New: "reachable GenHashInts (New m k)"
| by_NewFromData: "NewFromData data = Inr bf \<Longrightarrow> reachable GenHashInts bf"
| by_Add: "reachable GenHashInts bf \<Longrightarrow> Add GenHashInts bf v = Inr bf' \<Longrightarrow>
     reachable GenHashInts bf'"

text \<open>
  What the filter expects of the hash function: for the count \<open>int(k)\<close> it returns at
  least \<open>k\<close> values, so that \<open>hashs[i]\<close> is in range for every \<open>i < k\<close>.
\<close>

definition hash_yields :: "(byte list \<Rightarrow> int \<Rightarrow> uint64 list) \<Rightarrow> uint64 \<Rightarrow> bool" where
  "hash_yields GenHashInts k \<longleftrightarrow> (\<forall>d. unat k \<le> length (GenHashInts d (sint k)))"

text \<open>
  A bit array that has room for every index below \<open>m\<close>: the capacity covers \<open>m\<close> and
  the storage covers the capacity.
\<close>

definition well_sized :: "BloomFilter \<Rightarrow> bool" where
  "well_sized bf \<longleftrightarrow>
     unat (bf_m bf) \<le> capacity (bf_b bf) \<and>
     capacity (bf_b bf) \<le> 8 * length (storage (bf_b bf))"

text \<open>
  The storage of a filter a client can hold is either as \<open>bitmap.New\<close> laid it out for
  \<open>m\<close> bits or as \<open>bitmap.NewFromData\<close> took it from a byte slice.
\<close>

definition laid_out :: "BloomFilter \<Rightarrow> bool" where
  "laid_out bf \<longleftrightarrow>
     (capacity (bf_b bf) = unat (bf_m bf) \<and>
      length (storage (bf_b bf)) = (unat (bf_m bf) + 7) div 8) \<or>
     capacity (bf_b bf) = 8 * length (storage (bf_b bf))"

text \<open>
  The number a byte sequence denotes as a little-endian unsigned integer: the byte at
  offset \<open>j\<close> counts \<open>256 ^ j\<close>.
\<close>

fun le_value :: "byte list \<Rightarrow> nat" where
  "le_value [] = 0"
| "le_value (x # xs) = unat x + 256 * le_value xs"

text \<open>The \<open>n\<close> low bytes of a \<open>uint64\<close>, lowest first.\<close>

fun le_bytes :: "nat \<Rightarrow> uint64 \<Rightarrow> byte list" where
  "le_bytes 0 v = []"
| "le_bytes (Suc n) v = ucast v # le_bytes n (drop_bit 8 v)"

text \<open>
  A hash function to run the filter on concrete inputs: for a count \<open>n\<close> it returns
  \<open>n\<close> values (none for a negative count), the \<open>j\<close>-th being the sum of the bytes
  plus \<open>3 * j\<close>.
\<close>

definition sample_hash :: "byte list \<Rightarrow> int \<Rightarrow> uint64 list" where
  "sample_hash d n = map (\<lambda>j. of_nat (sum_list (map unat d) + 3 * j)) [0..<nat n]"

section \<open>Properties of the bit array and of the two loops\<close>

declare Add_loop.simps [simp del] Contains_loop.simps [simp del]

lemma uint64_succ: "(i::uint64) < k \<Longrightarrow> unat (i + 1) = Suc (unat i)"
  using unsigned_less [of k, where ?'a = nat]
  by (simp add: word_less_nat_alt unat_word_ariths)

lemma uint64_succ_le: "(i::uint64) < k \<Longrightarrow> i \<le> j \<Longrightarrow> j \<noteq> i \<Longrightarrow> i + 1 \<le> j"
proof -
  assume a: "i < k" "i \<le> j" "j \<noteq> i"
  from a(3) have "unat j \<noteq> unat i" by (simp add: word_unat_eq_iff)
  with a(2) have "Suc (unat i) \<le> unat j" by (simp add: word_le_nat_alt)
  with a(1) show ?thesis by (simp add: word_le_nat_alt uint64_succ)
qed

lemma bitmap_Set_shape:
  "bitmap_Set bm p = Inr bm' \<Longrightarrow>
     capacity bm' = capacity bm \<and> length (storage bm') = length (storage bm)"
  by (auto simp: bitmap_Set_def Let_def split: if_splits)

lemma bitmap_Set_ok:
  "unat p < capacity bm \<Longrightarrow> capacity bm \<le> 8 * length (storage bm) \<Longrightarrow>
     \<exists>bm'. bitmap_Set bm p = Inr bm'"
  by (auto simp: bitmap_Set_def Let_def)

lemma bitmap_Set_IsSet:
  "bitmap_Set bm p = Inr bm' \<Longrightarrow> bitmap_IsSet bm' p = Inr True"
  by (auto simp: bitmap_Set_def bitmap_IsSet_def Let_def bit_simps split: if_splits)

lemma bitmap_Set_mono:
  "bitmap_Set bm p = Inr bm' \<Longrightarrow> bitmap_IsSet bm q = Inr True \<Longrightarrow>
     bitmap_IsSet bm' q = Inr True"
  by (auto simp: bitmap_Set_def bitmap_IsSet_def Let_def bit_simps nth_list_update
      split: if_splits)


lemma Add_loop_shape:
  "Add_loop hashs bf i = Inr bf' \<Longrightarrow>
     bf_m bf' = bf_m bf \<and> bf_k bf' = bf_k bf \<and> capacity (bf_b bf') = capacity (bf_b bf) \<and>
     length (storage (bf_b bf')) = length (storage (bf_b bf))"
proof (induction hashs bf i rule: Add_loop.induct)
  case (1 hashs bf i)
  show ?case
  proof (cases "i < bf_k bf")
    case False
    with "1.prems" show ?thesis by (simp add: Add_loop.simps)
  next
    case True
    with "1.prems" obtain bm where
      len: "\<not> length hashs \<le> unat i" and nz: "bf_m bf \<noteq> 0" and
      set: "bitmap_Set (bf_b bf) (hashs ! unat i mod bf_m bf) = Inr bm" and
      rest: "Add_loop hashs (bf\<lparr>bf_b := bm\<rparr>) (i + 1) = Inr bf'"
      by (subst (asm) Add_loop.simps) (auto split: if_splits sum.splits)
    from "1.IH" [OF True len nz set rest] bitmap_Set_shape [OF set]
    show ?thesis by simp
  qed
qed

lemma Add_loop_mono:
  "Add_loop hashs bf i = Inr bf' \<Longrightarrow> bitmap_IsSet (bf_b bf) q = Inr True \<Longrightarrow>
     bitmap_IsSet (bf_b bf') q = Inr True"
proof (induction hashs bf i rule: Add_loop.induct)
  case (1 hashs bf i)
  show ?case
  proof (cases "i < bf_k bf")
    case False
    with "1.prems" show ?thesis by (simp add: Add_loop.simps)
  next
    case True
    with "1.prems" obtain bm where
      len: "\<not> length hashs \<le> unat i" and nz: "bf_m bf \<noteq> 0" and
      set: "bitmap_Set (bf_b bf) (hashs ! unat i mod bf_m bf) = Inr bm" and
      rest: "Add_loop hashs (bf\<lparr>bf_b := bm\<rparr>) (i + 1) = Inr bf'"
      by (subst (asm) Add_loop.simps) (auto split: if_splits sum.splits)
    from bitmap_Set_mono [OF set "1.prems"(2)]
    have "bitmap_IsSet (bf_b (bf\<lparr>bf_b := bm\<rparr>)) q = Inr True" by simp
    with "1.IH" [OF True len nz set rest] show ?thesis .
  qed
qed

lemma Add_loop_sets:
  "Add_loop hashs bf i = Inr bf' \<Longrightarrow> i \<le> j \<Longrightarrow> j < bf_k bf \<Longrightarrow>
     unat j < length hashs \<and> bf_m bf \<noteq> 0 \<and>
     bitmap_IsSet (bf_b bf') (hashs ! unat j mod bf_m bf) = Inr True"
proof (induction hashs bf i rule: Add_loop.induct)
  case (1 hashs bf i)
  from "1.prems" have True: "i < bf_k bf" by simp
  with "1.prems" obtain bm where
    len: "\<not> length hashs \<le> unat i" and nz: "bf_m bf \<noteq> 0" and
    set: "bitmap_Set (bf_b bf) (hashs ! unat i mod bf_m bf) = Inr bm" and
    rest: "Add_loop hashs (bf\<lparr>bf_b := bm\<rparr>) (i + 1) = Inr bf'"
    by (subst (asm) Add_loop.simps) (auto split: if_splits sum.splits)
  show ?case
  proof (cases "j = i")
    case True
    from bitmap_Set_IsSet [OF set]
    have "bitmap_IsSet (bf_b (bf\<lparr>bf_b := bm\<rparr>)) (hashs ! unat i mod bf_m bf) = Inr True"
      by simp
    from Add_loop_mono [OF rest this] True len nz show ?thesis by simp
  next
    case False
    with True "1.prems"(2) have "i + 1 \<le> j" by (rule_tac uint64_succ_le)
    from "1.IH" [OF True len nz set rest this] "1.prems"(3) show ?thesis by simp
  qed
qed

lemma Add_loop_ok:
  "well_sized bf \<Longrightarrow> bf_m bf \<noteq> 0 \<Longrightarrow> unat (bf_k bf) \<le> length hashs \<Longrightarrow>
     \<exists>bf'. Add_loop hashs bf i = Inr bf'"
proof (induction hashs bf i rule: Add_loop.induct)
  case (1 hashs bf i)
  show ?case
  proof (cases "i < bf_k bf")
    case False
    then show ?thesis by (simp add: Add_loop.simps)
  next
    case True
    then have len: "\<not> length hashs \<le> unat i"
      using "1.prems"(3) by (simp add: word_less_nat_alt)
    from "1.prems"(2) have "hashs ! unat i mod bf_m bf < bf_m bf"
      by (simp add: word_mod_less_divisor word_neq_0_conv)
    then have "unat (hashs ! unat i mod bf_m bf) < capacity (bf_b bf)"
      using "1.prems"(1) by (simp add: well_sized_def word_less_nat_alt)
    with "1.prems"(1) obtain bm where
      set: "bitmap_Set (bf_b bf) (hashs ! unat i mod bf_m bf) = Inr bm"
      using bitmap_Set_ok by (auto simp: well_sized_def)
    from bitmap_Set_shape [OF set] "1.prems"(1)
    have ws: "well_sized (bf\<lparr>bf_b := bm\<rparr>)" by (simp add: well_sized_def)
    from "1.IH" [OF True len "1.prems"(2) set ws] "1.prems"(2,3)
    obtain bf' where "Add_loop hashs (bf\<lparr>bf_b := bm\<rparr>) (i + 1) = Inr bf'" by auto
    with True len "1.prems"(2) set show ?thesis
      by (subst Add_loop.simps) simp
  qed
qed


lemma Contains_loop_TrueD:
  "Contains_loop hashs bf i = Inr True \<Longrightarrow> i \<le> j \<Longrightarrow> j < bf_k bf \<Longrightarrow>
     unat j < length hashs \<and> bf_m bf \<noteq> 0 \<and>
     bitmap_IsSet (bf_b bf) (hashs ! unat j mod bf_m bf) = Inr True"
proof (induction hashs bf i rule: Contains_loop.induct)
  case (1 hashs bf i)
  from "1.prems" have True: "i < bf_k bf" by simp
  with "1.prems"(1) have
    len: "\<not> length hashs \<le> unat i" and nz: "bf_m bf \<noteq> 0" and
    isset: "bitmap_IsSet (bf_b bf) (hashs ! unat i mod bf_m bf) = Inr True" and
    rest: "Contains_loop hashs bf (i + 1) = Inr True"
    by (subst (asm) Contains_loop.simps; auto split: if_splits sum.splits)+
  show ?case
  proof (cases "j = i")
    case True
    with len nz isset show ?thesis by simp
  next
    case False
    with True "1.prems"(2) have "i + 1 \<le> j" by (rule_tac uint64_succ_le)
    from "1.IH" [OF True len nz isset _ rest this "1.prems"(3)] show ?thesis by simp
  qed
qed

lemma Contains_loop_TrueI:
  "(\<And>j. i \<le> j \<Longrightarrow> j < bf_k bf \<Longrightarrow>
      unat j < length hashs \<and> bf_m bf \<noteq> 0 \<and>
      bitmap_IsSet (bf_b bf) (hashs ! unat j mod bf_m bf) = Inr True) \<Longrightarrow>
   Contains_loop hashs bf i = Inr True"
proof (induction hashs bf i rule: Contains_loop.induct)
  case (1 hashs bf i)
  show ?case
  proof (cases "i < bf_k bf")
    case False
    then show ?thesis by (simp add: Contains_loop.simps)
  next
    case True
    from "1.prems" [OF order_refl True] have
      len: "\<not> length hashs \<le> unat i" and nz: "bf_m bf \<noteq> 0" and
      isset: "bitmap_IsSet (bf_b bf) (hashs ! unat i mod bf_m bf) = Inr True"
      by simp_all
    have "Contains_loop hashs bf (i + 1) = Inr True"
    proof (rule "1.IH" [OF True len nz isset])
      show "\<not> \<not> True" by simp
    next
      fix j assume "i + 1 \<le> j" and lt: "j < bf_k bf"
      moreover have "i \<le> i + 1"
        using True by (simp add: word_le_nat_alt uint64_succ)
      ultimately have "i \<le> j" by simp
      from "1.prems" [OF this lt]
      show "unat j < length hashs \<and> bf_m bf \<noteq> 0 \<and>
        bitmap_IsSet (bf_b bf) (hashs ! unat j mod bf_m bf) = Inr True" .
    qed
    with True len nz isset show ?thesis
      by (subst Contains_loop.simps) simp
  qed
qed

lemma Contains_loop_cong:
  "bf_m bf' = bf_m bf \<Longrightarrow> bf_k bf' = bf_k bf \<Longrightarrow>
   (\<And>p. p < bf_m bf \<Longrightarrow> bitmap_IsSet (bf_b bf') p = bitmap_IsSet (bf_b bf) p) \<Longrightarrow>
   Contains_loop hashs bf' i = Contains_loop hashs bf i"
proof (induction hashs bf i rule: Contains_loop.induct)
  case (1 hashs bf i)
  show ?case
  proof (cases "i < bf_k bf \<and> \<not> length hashs \<le> unat i \<and> bf_m bf \<noteq> 0")
    case False
    with "1.prems"(1,2) show ?thesis
      by (subst Contains_loop.simps, subst (2) Contains_loop.simps) auto
  next
    case True
    then have "hashs ! unat i mod bf_m bf < bf_m bf"
      by (simp add: word_mod_less_divisor word_neq_0_conv)
    from "1.prems"(3) [OF this]
    have same: "bitmap_IsSet (bf_b bf') (hashs ! unat i mod bf_m bf) =
      bitmap_IsSet (bf_b bf) (hashs ! unat i mod bf_m bf)" .
    show ?thesis
    proof (cases "bitmap_IsSet (bf_b bf) (hashs ! unat i mod bf_m bf)")
      case (Inl e)
      with same True "1.prems"(1,2) show ?thesis
        by (subst Contains_loop.simps, subst (2) Contains_loop.simps) simp
    next
      case (Inr isset)
      show ?thesis
      proof (cases isset)
        case False
        with Inr same True "1.prems"(1,2) show ?thesis
          by (subst Contains_loop.simps, subst (2) Contains_loop.simps) simp
      next
        case isset: True
        from True have a: "i < bf_k bf" and b: "\<not> length hashs \<le> unat i" and c: "bf_m bf \<noteq> 0"
          by simp_all
        from isset have d: "\<not> \<not> isset" by simp
        from "1.IH" [OF a b c Inr d "1.prems"]
        have "Contains_loop hashs bf' (i + 1) = Contains_loop hashs bf (i + 1)" .
        with Inr isset same True "1.prems"(1,2) show ?thesis
          by (subst Contains_loop.simps, subst (2) Contains_loop.simps) simp
      qed
    qed
  qed
qed

section \<open>Properties of \<open>Add\<close>, \<open>Contains\<close> and sequences of calls\<close>

lemma New_well_sized: "well_sized (New m k)"
  by (simp add: well_sized_def New_def bitmap_New_def)

lemma Add_shape:
  "Add G bf v = Inr bf' \<Longrightarrow>
     bf_m bf' = bf_m bf \<and> bf_k bf' = bf_k bf \<and> capacity (bf_b bf') = capacity (bf_b bf) \<and>
     length (storage (bf_b bf')) = length (storage (bf_b bf))"
  unfolding Add_def Let_def by (rule Add_loop_shape)

lemma Add_well_sized: "Add G bf v = Inr bf' \<Longrightarrow> well_sized bf \<Longrightarrow> well_sized bf'"
  using Add_shape [of G bf v bf'] by (simp add: well_sized_def)

lemma Add_ok:
  "well_sized bf \<Longrightarrow> bf_m bf \<noteq> 0 \<Longrightarrow> hash_yields G (bf_k bf) \<Longrightarrow> \<exists>bf'. Add G bf v = Inr bf'"
  unfolding Add_def Let_def by (rule Add_loop_ok) (simp_all add: hash_yields_def)

lemma Add_k0: "bf_k bf = 0 \<Longrightarrow> Add G bf v = Inr bf"
  by (simp add: Add_def Add_loop.simps)

lemma Contains_k0: "bf_k bf = 0 \<Longrightarrow> Contains G bf v = Inr True"
  by (simp add: Contains_def Contains_loop.simps)

lemma Add_Contains:
  assumes "Add G bf v = Inr bf'"
  shows "Contains G bf' v = Inr True"
proof -
  let ?hashs = "G (bytes_of (Salt @ v)) (sint (bf_k bf))"
  from assms have loop: "Add_loop ?hashs bf 0 = Inr bf'"
    by (simp add: Add_def)
  note shape = Add_loop_shape [OF loop]
  have "Contains_loop ?hashs bf' 0 = Inr True"
  proof (rule Contains_loop_TrueI)
    fix j assume j: "0 \<le> j" "j < bf_k bf'"
    with shape have lt: "j < bf_k bf" by simp
    from Add_loop_sets [OF loop j(1) lt] shape
    show "unat j < length ?hashs \<and> bf_m bf' \<noteq> 0 \<and>
      bitmap_IsSet (bf_b bf') (?hashs ! unat j mod bf_m bf') = Inr True"
      by simp
  qed
  with shape show ?thesis by (simp add: Contains_def)
qed

lemma Add_keeps:
  assumes "Add G bf w = Inr bf'" and "Contains G bf v = Inr True"
  shows "Contains G bf' v = Inr True"
proof -
  let ?hashs = "G (bytes_of (Salt @ v)) (sint (bf_k bf))"
  from assms(1) have loop: "Add_loop (G (bytes_of (Salt @ w)) (sint (bf_k bf))) bf 0 = Inr bf'"
    by (simp add: Add_def)
  note shape = Add_loop_shape [OF loop]
  from assms(2) have c: "Contains_loop ?hashs bf 0 = Inr True"
    by (simp add: Contains_def)
  have "Contains_loop ?hashs bf' 0 = Inr True"
  proof (rule Contains_loop_TrueI)
    fix j assume j: "0 \<le> j" "j < bf_k bf'"
    with shape have lt: "j < bf_k bf" by simp
    from Contains_loop_TrueD [OF c j(1) lt] Add_loop_mono [OF loop] shape
    show "unat j < length ?hashs \<and> bf_m bf' \<noteq> 0 \<and>
      bitmap_IsSet (bf_b bf') (?hashs ! unat j mod bf_m bf') = Inr True"
      by simp
  qed
  with shape show ?thesis by (simp add: Contains_def)
qed


lemma bitmap_IsSet_ok:
  "unat p < capacity bm \<Longrightarrow> capacity bm \<le> 8 * length (storage bm) \<Longrightarrow>
     \<exists>r. bitmap_IsSet bm p = Inr r"
  by (auto simp: bitmap_IsSet_def Let_def)

lemma Contains_loop_ok:
  "well_sized bf \<Longrightarrow> bf_m bf \<noteq> 0 \<Longrightarrow> unat (bf_k bf) \<le> length hashs \<Longrightarrow>
     \<exists>r. Contains_loop hashs bf i = Inr r"
proof (induction hashs bf i rule: Contains_loop.induct)
  case (1 hashs bf i)
  show ?case
  proof (cases "i < bf_k bf")
    case False
    then show ?thesis by (subst Contains_loop.simps) auto
  next
    case True
    then have len: "\<not> length hashs \<le> unat i"
      using "1.prems"(3) by (simp add: word_less_nat_alt)
    from "1.prems"(2) have "hashs ! unat i mod bf_m bf < bf_m bf"
      by (simp add: word_mod_less_divisor word_neq_0_conv)
    then have "unat (hashs ! unat i mod bf_m bf) < capacity (bf_b bf)"
      using "1.prems"(1) by (simp add: well_sized_def word_less_nat_alt)
    with "1.prems"(1) obtain isset where
      isset: "bitmap_IsSet (bf_b bf) (hashs ! unat i mod bf_m bf) = Inr isset"
      using bitmap_IsSet_ok by (auto simp: well_sized_def)
    show ?thesis
    proof (cases isset)
      case False
      with True len "1.prems"(2) isset show ?thesis
        by (subst Contains_loop.simps) auto
    next
      case t: True
      then have "\<not> \<not> isset" by simp
      from "1.IH" [OF True len "1.prems"(2) isset this "1.prems"]
      obtain r where "Contains_loop hashs bf (i + 1) = Inr r" by auto
      with True len "1.prems"(2) isset t show ?thesis
        by (subst Contains_loop.simps) simp
    qed
  qed
qed

lemma Contains_ok:
  "well_sized bf \<Longrightarrow> bf_m bf \<noteq> 0 \<or> bf_k bf = 0 \<Longrightarrow> hash_yields G (bf_k bf) \<Longrightarrow>
     \<exists>r. Contains G bf v = Inr r"
proof (cases "bf_k bf = 0")
  case True
  then show ?thesis by (auto simp: Contains_k0)
next
  case False
  assume "well_sized bf" "bf_m bf \<noteq> 0 \<or> bf_k bf = 0" "hash_yields G (bf_k bf)"
  with False show ?thesis
    unfolding Contains_def Let_def
    by (intro Contains_loop_ok) (simp_all add: hash_yields_def)
qed

lemma Add_ok':
  "well_sized bf \<Longrightarrow> bf_m bf \<noteq> 0 \<or> bf_k bf = 0 \<Longrightarrow> hash_yields G (bf_k bf) \<Longrightarrow>
     \<exists>bf'. Add G bf v = Inr bf'"
  using Add_ok [of bf G v] Add_k0 [of bf G v] by auto

lemma run_keeps:
  "run G bf ops = Inr bf' \<Longrightarrow> Contains G bf v = Inr True \<Longrightarrow> Contains G bf' v = Inr True"
proof (induction ops arbitrary: bf)
  case Nil
  then show ?case by simp
next
  case (Cons x ops)
  show ?case
  proof (cases x)
    case (OpAdd w)
    with Cons.prems(1) obtain bf1 where a: "Add G bf w = Inr bf1" and r: "run G bf1 ops = Inr bf'"
      by (auto split: sum.splits)
    from Cons.IH [OF r Add_keeps [OF a Cons.prems(2)]] show ?thesis .
  next
    case (OpContains w)
    with Cons.prems(1) have "run G bf ops = Inr bf'" by (auto split: sum.splits)
    from Cons.IH [OF this Cons.prems(2)] show ?thesis .
  next
    case OpData
    with Cons.prems(1) have "run G bf ops = Inr bf'" by simp
    from Cons.IH [OF this Cons.prems(2)] show ?thesis .
  qed
qed

lemma run_ok:
  "well_sized bf \<Longrightarrow> bf_m bf \<noteq> 0 \<or> bf_k bf = 0 \<Longrightarrow> hash_yields G (bf_k bf) \<Longrightarrow>
     \<exists>bf'. run G bf ops = Inr bf' \<and> well_sized bf' \<and> bf_m bf' = bf_m bf \<and> bf_k bf' = bf_k bf"
proof (induction ops arbitrary: bf)
  case Nil
  then show ?case by simp
next
  case (Cons x ops)
  show ?case
  proof (cases x)
    case (OpAdd w)
    from Add_ok' [OF Cons.prems] obtain bf1 where a: "Add G bf w = Inr bf1" by auto
    note shape = Add_shape [OF a]
    from Cons.IH [of bf1] Add_well_sized [OF a Cons.prems(1)] Cons.prems(2,3) shape
    obtain bf' where "run G bf1 ops = Inr bf'" "well_sized bf'" "bf_m bf' = bf_m bf1"
      "bf_k bf' = bf_k bf1" by auto
    with a OpAdd shape show ?thesis by simp
  next
    case (OpContains w)
    from Contains_ok [OF Cons.prems] obtain r where "Contains G bf w = Inr r" by auto
    with Cons.IH [OF Cons.prems] OpContains show ?thesis by simp
  next
    case OpData
    with Cons.IH [OF Cons.prems] show ?thesis by simp
  qed
qed

lemma run_append:
  "run G bf (xs @ ys) = (case run G bf xs of Inl e \<Rightarrow> Inl e | Inr bf' \<Rightarrow> run G bf' ys)"
proof (induction xs arbitrary: bf)
  case Nil
  then show ?case by simp
next
  case (Cons x xs)
  then show ?case by (cases x) (simp_all split: sum.splits)
qed

lemma run_k0: "bf_k bf = 0 \<Longrightarrow> run G bf ops = Inr bf"
proof (induction ops)
  case Nil
  show ?case by simp
next
  case (Cons x ops)
  then show ?case by (cases x) (simp_all add: Add_k0 Contains_k0)
qed

section \<open>Properties of the export format\<close>

lemma PutUint64_le_bytes: "PutUint64 v = le_bytes 8 v"
  by (simp add: PutUint64_def eval_nat_numeral)

lemma length_PutUint64: "length (PutUint64 v) = 8"
  by (simp add: PutUint64_def)

lemma chunk_bit:
  "bit (push_bit s (ucast (ucast (drop_bit s v) :: byte)) :: uint64) n \<longleftrightarrow>
     s \<le> n \<and> n < s + 8 \<and> bit v n" for v :: uint64
  using bit_imp_le_length [of v n]
  by (auto simp: bit_push_bit_iff bit_ucast_iff bit_drop_bit_eq)

lemma chunk_bit0:
  "bit (ucast (ucast v :: byte) :: uint64) n \<longleftrightarrow> n < 8 \<and> bit v n" for v :: uint64
  using chunk_bit [of 0 v n] by simp

lemma PutUint64_nth:
  "PutUint64 v ! 0 = ucast v" "PutUint64 v ! 1 = ucast (drop_bit 8 v)"
  "PutUint64 v ! 2 = ucast (drop_bit 16 v)" "PutUint64 v ! 3 = ucast (drop_bit 24 v)"
  "PutUint64 v ! 4 = ucast (drop_bit 32 v)" "PutUint64 v ! 5 = ucast (drop_bit 40 v)"
  "PutUint64 v ! 6 = ucast (drop_bit 48 v)" "PutUint64 v ! 7 = ucast (drop_bit 56 v)"
  by (simp_all add: PutUint64_def)

lemma Uint64_bit:
  "bit (Uint64 (PutUint64 v)) n \<longleftrightarrow>
     (n < 8 \<or> 8 \<le> n \<and> n < 16 \<or> 16 \<le> n \<and> n < 24 \<or> 24 \<le> n \<and> n < 32 \<or>
      32 \<le> n \<and> n < 40 \<or> 40 \<le> n \<and> n < 48 \<or> 48 \<le> n \<and> n < 56 \<or> 56 \<le> n \<and> n < 64) \<and> bit v n"
  unfolding Uint64_def
  apply (simp only: PutUint64_nth bit_or_iff chunk_bit chunk_bit0)
  apply (simp only: arith_simps)
  apply blast
  done

lemma Uint64_PutUint64: "Uint64 (PutUint64 v) = v"
proof (rule bit_word_eqI)
  fix n assume "n < LENGTH(64)"
  then have "n < 8 \<or> 8 \<le> n \<and> n < 16 \<or> 16 \<le> n \<and> n < 24 \<or> 24 \<le> n \<and> n < 32 \<or>
      32 \<le> n \<and> n < 40 \<or> 40 \<le> n \<and> n < 48 \<or> 48 \<le> n \<and> n < 56 \<or> 56 \<le> n \<and> n < 64"
    by simp linarith
  then show "bit (Uint64 (PutUint64 v)) n \<longleftrightarrow> bit v n"
    by (simp only: Uint64_bit simp_thms)
qed

lemma le_value_le_bytes: "le_value (le_bytes n v) = unat v mod 2 ^ (8 * n)"
proof (induction n arbitrary: v)
  case 0
  then show ?case by simp
next
  case (Suc n)
  have a: "unat (ucast v :: byte) = unat v mod 256"
    by (simp add: unsigned_ucast_eq take_bit_eq_mod)
  have b: "unat (drop_bit 8 v) = unat v div 256"
    by (simp add: drop_bit_eq_div unat_div)
  have "unat v mod (256 * 2 ^ (8 * n)) = 256 * (unat v div 256 mod 2 ^ (8 * n)) + unat v mod 256"
    by (rule mod_mult2_eq)
  moreover have "(2::nat) ^ (8 * Suc n) = 256 * 2 ^ (8 * n)"
    by (simp add: power_add)
  ultimately show ?case using Suc [of "drop_bit 8 v"] a b by simp
qed

lemma le_value_PutUint64: "le_value (PutUint64 v) = unat v"
  using unsigned_less [of v, where ?'a = nat]
  by (simp add: PutUint64_le_bytes le_value_le_bytes)

lemma binary_Read_PutUint64: "binary_Read (PutUint64 v @ rest) x = (v, rest)"
  by (simp add: binary_Read_def length_PutUint64 Uint64_PutUint64)

lemma NewFromData_Data:
  "NewFromData (Data bf) =
     Inr \<lparr>bf_m = bf_m bf, bf_k = bf_k bf, bf_b = bitmap_NewFromData (storage (bf_b bf))\<rparr>"
  by (simp add: NewFromData_def Data_def binary_Write_def bitmap_Data_def
      binary_Read_PutUint64 length_PutUint64)


lemma Add_laid_out: "Add G bf v = Inr bf' \<Longrightarrow> laid_out bf \<Longrightarrow> laid_out bf'"
  using Add_shape [of G bf v bf'] by (simp add: laid_out_def)

lemma reachable_laid_out: "reachable G bf \<Longrightarrow> laid_out bf"
proof (induction rule: reachable.induct)
  case (by_New m k)
  show ?case by (simp add: laid_out_def New_def bitmap_New_def)
next
  case (by_NewFromData data bf)
  then show ?case
    by (auto simp: laid_out_def NewFromData_def bitmap_NewFromData_def
        split: prod.splits if_splits)
next
  case (by_Add bf v bf')
  then show ?case by (simp add: Add_laid_out)
qed

lemma laid_out_IsSet:
  assumes "laid_out bf" and "p < bf_m bf"
  shows "bitmap_IsSet (bitmap_NewFromData (storage (bf_b bf))) p = bitmap_IsSet (bf_b bf) p"
proof -
  from assms(2) have p: "unat p < unat (bf_m bf)" by (simp add: word_less_nat_alt)
  from assms(1) consider
    (new) "capacity (bf_b bf) = unat (bf_m bf)"
          "length (storage (bf_b bf)) = (unat (bf_m bf) + 7) div 8"
    | (data) "capacity (bf_b bf) = 8 * length (storage (bf_b bf))"
    by (auto simp: laid_out_def)
  then show ?thesis
  proof cases
    case new
    from p have "unat p div 8 < (unat (bf_m bf) + 7) div 8" by arith
    moreover from p have "unat p < 8 * ((unat (bf_m bf) + 7) div 8)" by arith
    ultimately show ?thesis
      using new p by (simp add: bitmap_IsSet_def bitmap_NewFromData_def Let_def)
  next
    case data
    then show ?thesis by (simp add: bitmap_IsSet_def bitmap_NewFromData_def Let_def)
  qed
qed

section \<open>Properties of the sizing formulas\<close>












section \<open>The claims\<close>

subsection \<open>Insertion and membership\<close>

text \<open>
  C1 (no false negatives). Take a filter built by \<open>New(m, k)\<close> with \<open>m \<ge> 1\<close> and
  \<open>k \<ge> 1\<close>, and a hash function that returns at least \<open>k\<close> values for the count
  \<open>k\<close>. Then any sequence of calls that contains \<open>Add(v)\<close>, with any calls before it
  and any calls after it, runs without a panic, and on the filter it leaves
  \<open>Contains(v)\<close> returns true.
\<close>

theorem no_false_negatives:
  assumes "1 \<le> m" and "1 \<le> k" and "hash_yields GenHashInts k"
  shows "\<exists>bf. run GenHashInts (New m k) (before @ OpAdd v # after) = Inr bf \<and>
              Contains GenHashInts bf v = Inr True"
proof -
  from assms(1) have nz: "m \<noteq> 0" by auto
  have ws: "well_sized (New m k)" by (rule New_well_sized)
  from run_ok [OF ws, of GenHashInts before] nz assms(3)
  obtain bf0 where r0: "run GenHashInts (New m k) before = Inr bf0" and ws0: "well_sized bf0"
    and m0: "bf_m bf0 = m" and k0: "bf_k bf0 = k"
    by (auto simp: New_def)
  from Add_ok [OF ws0, of GenHashInts v] nz assms(3) m0 k0
  obtain bf1 where a: "Add GenHashInts bf0 v = Inr bf1" by auto
  note shape = Add_shape [OF a]
  from run_ok [OF Add_well_sized [OF a ws0], of GenHashInts after] nz assms(3) m0 k0 shape
  obtain bf2 where r2: "run GenHashInts bf1 after = Inr bf2" by auto
  from run_keeps [OF r2 Add_Contains [OF a]]
  have "Contains GenHashInts bf2 v = Inr True" .
  with r0 a r2 show ?thesis by (simp add: run_append)
qed

theorem no_false_negatives_witness:
  "1 \<le> (64 :: uint64) \<and> 1 \<le> (3 :: uint64) \<and> hash_yields sample_hash 3 \<and>
   (\<exists>bf. run sample_hash (New 64 3)
           ([OpAdd ''x'', OpContains ''y''] @ OpAdd ''ab'' # [OpData, OpAdd ''z'']) = Inr bf \<and>
         Contains sample_hash bf ''ab'' = Inr True)"
proof -
  have h: "hash_yields sample_hash 3"
    by (simp add: hash_yields_def sample_hash_def)
  have m: "1 \<le> (64 :: uint64)" and k: "1 \<le> (3 :: uint64)"
    by simp_all
  from no_false_negatives [OF m k h] m k h show ?thesis
    by blast
qed

text \<open>
  C8 (monotonicity of membership). Once \<open>Contains(v)\<close> has returned true on a filter,
  it returns true on the filter that any sequence of \<open>Add\<close>, \<open>Contains\<close> and
  \<open>Data\<close> calls leaves. Such a sequence does run to its end when the bit array has
  room for every index below \<open>m\<close> and the hash function returns at least \<open>k\<close>
  values.
\<close>

theorem membership_monotone:
  assumes "Contains GenHashInts bf v = Inr True"
  shows "(\<forall>bf'. run GenHashInts bf ops = Inr bf' \<longrightarrow> Contains GenHashInts bf' v = Inr True) \<and>
         (well_sized bf \<and> hash_yields GenHashInts (bf_k bf) \<longrightarrow>
            (\<exists>bf'. run GenHashInts bf ops = Inr bf'))"
proof (intro conjI allI impI)
  fix bf' assume "run GenHashInts bf ops = Inr bf'"
  from run_keeps [OF this assms] show "Contains GenHashInts bf' v = Inr True" .
next
  assume h: "well_sized bf \<and> hash_yields GenHashInts (bf_k bf)"
  have "bf_m bf \<noteq> 0 \<or> bf_k bf = 0"
  proof (cases "bf_k bf = 0")
    case True
    then show ?thesis by simp
  next
    case False
    then have "0 < bf_k bf" by (simp add: word_neq_0_conv)
    from Contains_loop_TrueD [OF _ order_refl this] assms
    show ?thesis by (simp add: Contains_def)
  qed
  with run_ok [of bf GenHashInts ops] h show "\<exists>bf'. run GenHashInts bf ops = Inr bf'"
    by auto
qed

theorem membership_monotone_witness:
  "Contains sample_hash \<lparr>bf_m = 8, bf_k = 2, bf_b = \<lparr>capacity = 8, storage = [18]\<rparr>\<rparr> ''a''
     = Inr True \<and>
   well_sized \<lparr>bf_m = 8, bf_k = 2, bf_b = \<lparr>capacity = 8, storage = [18]\<rparr>\<rparr> \<and>
   hash_yields sample_hash 2 \<and>
   run sample_hash \<lparr>bf_m = 8, bf_k = 2, bf_b = \<lparr>capacity = 8, storage = [18]\<rparr>\<rparr>
     [OpAdd ''b'', OpData, OpContains ''c'']
     = Inr \<lparr>bf_m = 8, bf_k = 2, bf_b = \<lparr>capacity = 8, storage = [54]\<rparr>\<rparr> \<and>
   Contains sample_hash \<lparr>bf_m = 8, bf_k = 2, bf_b = \<lparr>capacity = 8, storage = [54]\<rparr>\<rparr> ''a''
     = Inr True"
proof -
  let ?bf = "\<lparr>bf_m = 8, bf_k = 2, bf_b = \<lparr>capacity = 8, storage = [18]\<rparr>\<rparr>"
  let ?bf' = "\<lparr>bf_m = 8, bf_k = 2, bf_b = \<lparr>capacity = 8, storage = [54]\<rparr>\<rparr>"
  let ?ops = "[OpAdd ''b'', OpData, OpContains ''c'']"
  have c: "Contains sample_hash ?bf ''a'' = Inr True"
    by code_simp
  have r: "run sample_hash ?bf ?ops = Inr ?bf'"
    by code_simp
  have w: "well_sized ?bf"
    by (simp add: well_sized_def)
  have h: "hash_yields sample_hash 2"
    by (simp add: hash_yields_def sample_hash_def)
  from membership_monotone [OF c, of ?ops] r
  have "Contains sample_hash ?bf' ''a'' = Inr True"
    by blast
  with c r w h show ?thesis
    by blast
qed

text \<open>
  C9 (modulo by zero). \<open>New(0, k)\<close> returns a filter, with an empty bit array. With
  \<open>k \<ge> 1\<close> and a hash function that returns at least \<open>k\<close> values, every \<open>Add\<close> and
  every \<open>Contains\<close> on it reaches \<open>hashs[0] % 0\<close> and panics with a division by
  zero.
\<close>

theorem modulo_by_zero_reachable:
  assumes "1 \<le> k" and "hash_yields GenHashInts k"
  shows "New 0 k = \<lparr>bf_m = 0, bf_k = k, bf_b = \<lparr>capacity = 0, storage = []\<rparr>\<rparr> \<and>
         Add GenHashInts (New 0 k) v = Inl DivideByZero \<and>
         Contains GenHashInts (New 0 k) v = Inl DivideByZero"
proof -
  let ?hashs = "GenHashInts (bytes_of (Salt @ v)) (sint k)"
  from assms(1) have pos: "0 < k"
    by (simp add: word_less_nat_alt word_le_nat_alt)
  then have "0 < unat k"
    by (simp add: word_less_nat_alt)
  moreover from assms(2) have "unat k \<le> length ?hashs"
    by (simp add: hash_yields_def)
  ultimately have len: "\<not> length ?hashs \<le> unat (0 :: uint64)"
    by auto
  have n: "New 0 k = \<lparr>bf_m = 0, bf_k = k, bf_b = \<lparr>capacity = 0, storage = []\<rparr>\<rparr>"
    by (simp add: New_def bitmap_New_def)
  from pos len have "Add_loop ?hashs (New 0 k) 0 = Inl DivideByZero"
    by (subst Add_loop.simps) (simp add: n)
  moreover from pos len have "Contains_loop ?hashs (New 0 k) 0 = Inl DivideByZero"
    by (subst Contains_loop.simps) (simp add: n)
  ultimately show ?thesis
    using n by (simp add: Add_def Contains_def)
qed

theorem modulo_by_zero_reachable_witness:
  "1 \<le> (2 :: uint64) \<and> hash_yields sample_hash 2 \<and>
   New 0 2 = \<lparr>bf_m = 0, bf_k = 2, bf_b = \<lparr>capacity = 0, storage = []\<rparr>\<rparr> \<and>
   Add sample_hash (New 0 2) ''a'' = Inl DivideByZero \<and>
   Contains sample_hash (New 0 2) ''a'' = Inl DivideByZero"
proof -
  have h: "hash_yields sample_hash 2"
    by (simp add: hash_yields_def sample_hash_def)
  have k: "1 \<le> (2 :: uint64)"
    by simp
  from modulo_by_zero_reachable [OF k h, of "''a''"] k h show ?thesis
    by blast
qed

text \<open>
  C10 (no hash rounds). \<open>New(m, 0)\<close> returns a filter with \<open>k = 0\<close>. On it
  \<open>Contains(v)\<close> returns true for every \<open>v\<close>, before any \<open>Add\<close> as well, and
  \<open>Add(v)\<close> returns the filter as it was: whatever calls are made, the filter stays the
  one \<open>New\<close> returned, with its bit array all zero.
\<close>

theorem zero_hash_count:
  "bf_k (New m 0) = 0 \<and>
   Contains GenHashInts (New m 0) v = Inr True \<and>
   Add GenHashInts (New m 0) v = Inr (New m 0) \<and>
   run GenHashInts (New m 0) ops = Inr (New m 0) \<and>
   storage (bf_b (New m 0)) = replicate ((unat m + 7) div 8) 0"
proof -
  have k: "bf_k (New m 0) = 0"
    by (simp add: New_def)
  from Contains_k0 [OF k] Add_k0 [OF k] run_k0 [OF k] k show ?thesis
    by (simp add: New_def bitmap_New_def)
qed

subsection \<open>Export and import\<close>

text \<open>
  C7 (export format). \<open>Data()\<close> returns 16 bytes followed by the bytes the bit array
  exports. The first eight are \<open>m\<close> in little-endian order (they are what
  \<open>PutUint64\<close> writes, and the number they denote is \<open>m\<close>), the next eight are
  \<open>k\<close> in the same way.
\<close>

theorem export_format:
  "length (Data bf) = 16 + length (bitmap_Data (bf_b bf)) \<and>
   take 8 (Data bf) = PutUint64 (bf_m bf) \<and>
   le_value (take 8 (Data bf)) = unat (bf_m bf) \<and>
   take 8 (drop 8 (Data bf)) = PutUint64 (bf_k bf) \<and>
   le_value (take 8 (drop 8 (Data bf))) = unat (bf_k bf) \<and>
   drop 16 (Data bf) = bitmap_Data (bf_b bf)"
  by (simp add: Data_def binary_Write_def length_PutUint64 le_value_PutUint64)

text \<open>
  C2 (round trip). For every filter a client can hold, \<open>NewFromData(Data(f))\<close> returns
  a filter with the same \<open>m\<close> and the same \<open>k\<close>, and \<open>Contains\<close> gives on it the
  result it gives on \<open>f\<close>, for every value and every hash function (a panic
  included).
\<close>

theorem roundtrip_serialization:
  assumes "reachable GenHashInts bf"
  shows "\<exists>bf'. NewFromData (Data bf) = Inr bf' \<and> bf_m bf' = bf_m bf \<and> bf_k bf' = bf_k bf \<and>
           (\<forall>v. Contains GenHashInts bf' v = Contains GenHashInts bf v)"
proof -
  let ?bf' = "\<lparr>bf_m = bf_m bf, bf_k = bf_k bf, bf_b = bitmap_NewFromData (storage (bf_b bf))\<rparr>"
  note lo = reachable_laid_out [OF assms]
  have "Contains_loop hashs ?bf' 0 = Contains_loop hashs bf 0" for hashs
  proof (rule Contains_loop_cong)
    fix p assume "p < bf_m bf"
    from laid_out_IsSet [OF lo this]
    show "bitmap_IsSet (bf_b ?bf') p = bitmap_IsSet (bf_b bf) p" by simp
  qed simp_all
  then have "Contains GenHashInts ?bf' v = Contains GenHashInts bf v" for v
    by (simp add: Contains_def)
  then show ?thesis by (simp add: NewFromData_Data)
qed

theorem roundtrip_serialization_witness:
  "reachable sample_hash \<lparr>bf_m = 12, bf_k = 2, bf_b = \<lparr>capacity = 12, storage = [32, 1]\<rparr>\<rparr> \<and>
   NewFromData (Data \<lparr>bf_m = 12, bf_k = 2, bf_b = \<lparr>capacity = 12, storage = [32, 1]\<rparr>\<rparr>)
     = Inr \<lparr>bf_m = 12, bf_k = 2, bf_b = \<lparr>capacity = 16, storage = [32, 1]\<rparr>\<rparr> \<and>
   (\<forall>v. Contains sample_hash \<lparr>bf_m = 12, bf_k = 2, bf_b = \<lparr>capacity = 16, storage = [32, 1]\<rparr>\<rparr> v
       = Contains sample_hash \<lparr>bf_m = 12, bf_k = 2, bf_b = \<lparr>capacity = 12, storage = [32, 1]\<rparr>\<rparr> v)"
proof -
  let ?bf = "\<lparr>bf_m = 12, bf_k = 2, bf_b = \<lparr>capacity = 12, storage = [32, 1]\<rparr>\<rparr>"
  let ?bf' = "\<lparr>bf_m = 12, bf_k = 2, bf_b = \<lparr>capacity = 16, storage = [32, 1]\<rparr>\<rparr>"
  have a: "Add sample_hash (New 12 2) ''a'' = Inr ?bf"
    by code_simp
  have r: "reachable sample_hash ?bf"
    by (rule by_Add [OF by_New a])
  have d: "NewFromData (Data ?bf) = Inr ?bf'"
    by code_simp
  from roundtrip_serialization [OF r] d
  have "\<forall>v. Contains sample_hash ?bf' v = Contains sample_hash ?bf v"
    by simp
  with r d show ?thesis
    by blast
qed

text \<open>
  C4 (short or malformed input), as the code has it. \<open>NewFromData\<close> has no error
  result and drops the errors of \<open>binary.Read\<close>. On fewer than 16 bytes it panics at
  \<open>data[8+8:]\<close> (slice bounds out of range) and builds no filter. On 16 bytes or more
  it returns a filter: \<open>m\<close> and \<open>k\<close> are decoded from the first 16 bytes and the bit
  array is the rest of the bytes as they are, however few they are for \<open>m\<close>.
\<close>

theorem NewFromData_cases:
  "(length data < 16 \<longrightarrow> NewFromData data = Inl SliceBoundsOutOfRange) \<and>
   (16 \<le> length data \<longrightarrow>
      NewFromData data =
        Inr \<lparr>bf_m = Uint64 (take 8 data), bf_k = Uint64 (take 8 (drop 8 data)),
             bf_b = bitmap_NewFromData (drop 16 data)\<rparr>)"
  by (auto simp: NewFromData_def binary_Read_def)

theorem NewFromData_cases_witness:
  "length [1, 2, 3 :: byte] < 16 \<and>
   NewFromData [1, 2, 3] = Inl SliceBoundsOutOfRange \<and>
   16 \<le> length [8, 0, 0, 0, 0, 0, 0, 0, 1, 0, 0, 0, 0, 0, 0, 0, 129 :: byte] \<and>
   NewFromData [8, 0, 0, 0, 0, 0, 0, 0, 1, 0, 0, 0, 0, 0, 0, 0, 129] =
     Inr \<lparr>bf_m = Uint64 [8, 0, 0, 0, 0, 0, 0, 0], bf_k = Uint64 [1, 0, 0, 0, 0, 0, 0, 0],
          bf_b = bitmap_NewFromData [129]\<rparr>"
  using NewFromData_cases [of "[1, 2, 3]"]
    NewFromData_cases [of "[8, 0, 0, 0, 0, 0, 0, 0, 1, 0, 0, 0, 0, 0, 0, 0, 129]"]
  by simp

text \<open>
  The claim as the spec states it fails: 16 bytes that announce \<open>m = 64\<close> and carry
  none of the eight bytes of storage are accepted, and the filter is built from them.
\<close>

theorem NewFromData_accepts_truncated:
  "NewFromData [64, 0, 0, 0, 0, 0, 0, 0, 1, 0, 0, 0, 0, 0, 0, 0] =
     Inr \<lparr>bf_m = 64, bf_k = 1, bf_b = \<lparr>capacity = 0, storage = []\<rparr>\<rparr>"
  by code_simp

text \<open>
  C5 (capacity of the reconstructed bit array), as the code has it. \<open>NewFromData\<close>
  hands \<open>bitmap.NewFromData\<close> the bytes after the 16-byte header and nothing else. The
  parsed \<open>m\<close> goes into the field \<open>m\<close> of the filter only: the bit array is the same
  whatever the header says, and its capacity is eight times the number of remaining
  bytes.
\<close>

theorem NewFromData_bit_array:
  assumes "length header = 16"
  shows "\<exists>bf. NewFromData (header @ rest) = Inr bf \<and>
              bf_m bf = Uint64 (take 8 header) \<and>
              bf_b bf = bitmap_NewFromData rest \<and>
              capacity (bf_b bf) = 8 * length rest"
  using assms by (simp add: NewFromData_def binary_Read_def bitmap_NewFromData_def)

theorem NewFromData_bit_array_witness:
  "length [12, 0, 0, 0, 0, 0, 0, 0, 1, 0, 0, 0, 0, 0, 0, 0 :: byte] = 16 \<and>
   (\<exists>bf. NewFromData ([12, 0, 0, 0, 0, 0, 0, 0, 1, 0, 0, 0, 0, 0, 0, 0] @ [5, 8]) = Inr bf \<and>
         bf_m bf = Uint64 (take 8 [12, 0, 0, 0, 0, 0, 0, 0, 1, 0, 0, 0, 0, 0, 0, 0]) \<and>
         bf_b bf = bitmap_NewFromData [5, 8] \<and>
         capacity (bf_b bf) = 8 * length [5, 8 :: byte])"
proof -
  have l: "length [12, 0, 0, 0, 0, 0, 0, 0, 1, 0, 0, 0, 0, 0, 0, 0 :: byte] = 16"
    by simp
  from NewFromData_bit_array [OF l, of "[5, 8]"] l show ?thesis
    by blast
qed

text \<open>
  The claim as the spec states it fails: for the 18 bytes that \<open>Data()\<close> returns for a
  filter of \<open>m = 12\<close> bits, the capacity of the reconstructed bit array is 16, the
  number of bits in the two remaining bytes, and not the parsed \<open>m = 12\<close>.
\<close>

theorem NewFromData_capacity_not_m:
  "NewFromData [12, 0, 0, 0, 0, 0, 0, 0, 1, 0, 0, 0, 0, 0, 0, 0, 5, 8] =
     Inr \<lparr>bf_m = 12, bf_k = 1, bf_b = \<lparr>capacity = 16, storage = [5, 8]\<rparr>\<rparr>"
  by code_simp

subsection \<open>Construction\<close>

text \<open>
  C3 (invalid parameters), as the code has it. No constructor checks its parameters.
  \<open>New(m, k)\<close> returns, for every \<open>m\<close> and every \<open>k\<close> (\<open>k = 0\<close> and \<open>m = 0\<close>
  too), a filter with these \<open>m\<close> and \<open>k\<close> and an all-zero bit array, and
  \<open>NewWithEstimates(n, p)\<close> is \<open>New\<close> on the pair that \<open>EstimateParameters(n, p)\<close>
  returns.
\<close>

theorem New_accepts_all:
  "bf_m (New m k) = m \<and> bf_k (New m k) = k \<and>
   bf_b (New m k) = \<lparr>capacity = unat m, storage = replicate ((unat m + 7) div 8) 0\<rparr> \<and>
   NewWithEstimates EstimateParameters n p =
     New (fst (EstimateParameters n p)) (snd (EstimateParameters n p))"
  by (simp add: New_def bitmap_New_def NewWithEstimates_def split: prod.splits)

text \<open>
  The claim as the spec states it fails: \<open>New(64, 0)\<close> is not rejected, it returns a
  filter with \<open>k = 0\<close>.
\<close>

theorem New_accepts_zero_k:
  "New 64 0 = \<lparr>bf_m = 64, bf_k = 0,
               bf_b = \<lparr>capacity = 64, storage = [0, 0, 0, 0, 0, 0, 0, 0]\<rparr>\<rparr>"
  by code_simp




end
